theory Spec2Isabelle
  imports Main
begin

section \<open>Data model (library/models.py)\<close>

text \<open>
  A \<open>DateTimeField\<close> is a point in time with microsecond resolution; it is modelled as
  the number of microseconds since the epoch. \<open>timedelta(days=n)\<close> is \<open>n\<close> days of
  microseconds and \<open>.date()\<close> is the day number. A \<open>DecimalField\<close> with two decimal
  places is modelled as an integer number of hundredths, so \<open>Decimal('1.00')\<close> is 100.
\<close>

type_synonym datetime = int
type_synonym decimal = int

definition usec_per_day :: int where
  "usec_per_day = 86400000000"

definition timedelta_days :: "int \<Rightarrow> int" where
  "timedelta_days n = n * usec_per_day"

definition date_of :: "datetime \<Rightarrow> int" where
  "date_of t = t div usec_per_day"

datatype loan_status_choices = LoanActive | LoanReturned | LoanOverdue | LoanLost

datatype reservation_status_choices =
  ResPending | ResAvailable | ResFulfilled | ResCancelled | ResExpired

datatype fine_status_choices = FinePending | FinePaid | FineWaived | FineDisputed

record userprofile =
  loan_limit :: int

record book =
  title :: string
  total_copies :: int
  available_copies :: int

record loan =
  loan_book :: nat
  loan_user :: nat
  loan_date :: datetime
  due_date :: datetime
  return_date :: "datetime option"
  loan_status :: loan_status_choices
  renewal_count :: int
  fine_amount :: decimal

record reservation =
  res_book :: nat
  res_user :: nat
  reservation_date :: datetime
  expiry_date :: datetime
  res_status :: reservation_status_choices

record fine =
  fine_user :: nat
  fine_loan :: nat
  amount :: decimal
  reason :: string
  created_date :: datetime
  fine_status :: fine_status_choices

text \<open>
  The relational store. Every table is a list of rows and the primary key of a row is its
  position in the list: the views never delete a Book, Loan, Reservation or Fine, a
  \<open>create\<close> appends a row, and \<open>save\<close> on a loaded instance overwrites the row at its key.
  Foreign keys (\<open>book\<close>, \<open>user\<close>, \<open>loan\<close>) are the referenced keys. A model instance in
  memory is a pair of its key and its fields.
\<close>

record store =
  books :: "book list"
  loans :: "loan list"
  reservations :: "reservation list"
  fines :: "fine list"
  userprofiles :: "nat \<rightharpoonup> userprofile"

datatype error = Http404 | DoesNotExist | MultipleObjectsReturned | IntegrityError

definition objects :: "'a list \<Rightarrow> (nat \<times> 'a) list" where
  "objects tbl = List.enumerate 0 tbl"

text \<open>
  \<open>order_by\<close> sorts by the key; rows with equal keys stay in the order of their
  primary keys. \<open>first()\<close> is the first row of the result, if any.
\<close>

definition order_by :: "('a \<Rightarrow> int) \<Rightarrow> 'a list \<Rightarrow> 'a list" where
  "order_by key rows = sort_key key rows"

definition first :: "'a list \<Rightarrow> 'a option" where
  "first rows = (case rows of [] \<Rightarrow> None | x # _ \<Rightarrow> Some x)"

definition get_book :: "store \<Rightarrow> nat \<Rightarrow> book option" where
  "get_book s book_id =
     (if book_id < length (books s) then Some (books s ! book_id) else None)"

definition save_book :: "nat \<times> book \<Rightarrow> store \<Rightarrow> store" where
  "save_book inst s = s\<lparr>books := (books s)[fst inst := snd inst]\<rparr>"

definition save_loan :: "nat \<times> loan \<Rightarrow> store \<Rightarrow> store" where
  "save_loan inst s = s\<lparr>loans := (loans s)[fst inst := snd inst]\<rparr>"

definition save_reservation :: "nat \<times> reservation \<Rightarrow> store \<Rightarrow> store" where
  "save_reservation inst s = s\<lparr>reservations := (reservations s)[fst inst := snd inst]\<rparr>"

definition save_fine :: "nat \<times> fine \<Rightarrow> store \<Rightarrow> store" where
  "save_fine inst s = s\<lparr>fines := (fines s)[fst inst := snd inst]\<rparr>"

subsection \<open>Loan methods\<close>

text \<open>
  Every method that calls \<open>timezone.now()\<close> takes the time of the request as \<open>now\<close>.
\<close>

definition is_overdue :: "datetime \<Rightarrow> loan \<Rightarrow> bool" where
  "is_overdue now l =
     (if loan_status l = LoanReturned then False else now > due_date l)"

definition days_overdue :: "datetime \<Rightarrow> loan \<Rightarrow> int" where
  "days_overdue now l =
     (if \<not> is_overdue now l then 0 else date_of now - date_of (due_date l))"

text \<open>\<open>calculate_fine\<close> returns the fine and the instance with the fields it assigned.\<close>

definition calculate_fine :: "datetime \<Rightarrow> loan \<Rightarrow> decimal \<times> loan" where
  "calculate_fine now l =
     (if is_overdue now l \<and> loan_status l \<noteq> LoanReturned then
        let overdue_days = days_overdue now l;
            fine_per_day = 100;
            l1 = l\<lparr>fine_amount := overdue_days * fine_per_day\<rparr>;
            l2 = (if loan_status l1 \<noteq> LoanOverdue then l1\<lparr>loan_status := LoanOverdue\<rparr> else l1)
        in (fine_amount l2, l2)
      else (0, l))"

definition pending_reservations :: "store \<Rightarrow> nat \<Rightarrow> (nat \<times> reservation) list" where
  "pending_reservations s book_id =
     filter (\<lambda>(rid, r). res_book r = book_id \<and> res_status r = ResPending)
       (objects (reservations s))"

text \<open>
  \<open>can_be_renewed\<close> reads \<open>self.book.reservation_set\<close> only after the two checks on the
  loan itself; loading a book that is not in the store raises \<open>DoesNotExist\<close>.
\<close>

definition can_be_renewed :: "datetime \<Rightarrow> store \<Rightarrow> loan \<Rightarrow> error + (bool \<times> string)" where
  "can_be_renewed now s l =
     (if renewal_count l \<ge> 3 then Inr (False, ''Maximum renewals reached'')
      else if is_overdue now l then Inr (False, ''Cannot renew overdue book'')
      else (case get_book s (loan_book l) of
              None \<Rightarrow> Inl DoesNotExist
            | Some b \<Rightarrow>
                if pending_reservations s (loan_book l) \<noteq> []
                then Inr (False, ''Book has pending reservations'')
                else Inr (True, ''Can be renewed'')))"

text \<open>
  \<open>renew\<close> returns its result, the instance as the method leaves it, and the store.
\<close>

definition renew ::
  "datetime \<Rightarrow> store \<Rightarrow> nat \<times> loan \<Rightarrow> (error + (bool \<times> string)) \<times> (nat \<times> loan) \<times> store" where
  "renew now s inst =
     (case can_be_renewed now s (snd inst) of
        Inl e \<Rightarrow> (Inl e, inst, s)
      | Inr (can_renew, message) \<Rightarrow>
          if can_renew then
            let l1 = (snd inst)\<lparr>due_date := now + timedelta_days 14\<rparr>;
                l2 = l1\<lparr>renewal_count := renewal_count l1 + 1\<rparr>;
                inst' = (fst inst, l2)
            in (Inr (True, ''Loan renewed successfully''), inst', save_loan inst' s)
          else (Inr (False, message), inst, s))"

subsection \<open>Book.can_be_borrowed_by\<close>

definition active_loans_of :: "store \<Rightarrow> nat \<Rightarrow> loan list" where
  "active_loans_of s user =
     filter (\<lambda>l. loan_user l = user \<and> loan_status l = LoanActive) (loans s)"

definition has_active_loan :: "store \<Rightarrow> nat \<Rightarrow> nat \<Rightarrow> bool" where
  "has_active_loan s book_id user =
     list_ex (\<lambda>l. loan_book l = book_id \<and> loan_user l = user \<and> loan_status l = LoanActive)
       (loans s)"

definition has_pending_fines :: "store \<Rightarrow> nat \<Rightarrow> bool" where
  "has_pending_fines s user =
     list_ex (\<lambda>f. fine_user f = user \<and> fine_status f = FinePending) (fines s)"

definition is_available :: "book \<Rightarrow> bool" where
  "is_available b = (available_copies b > 0)"

text \<open>\<open>user.userprofile\<close> raises when the user has no profile row.\<close>

definition can_be_borrowed_by ::
  "store \<Rightarrow> nat \<times> book \<Rightarrow> nat \<Rightarrow> error + (bool \<times> string)" where
  "can_be_borrowed_by s inst user =
     (if \<not> is_available (snd inst) then Inr (False, ''Book is not available'')
      else if has_active_loan s (fst inst) user
        then Inr (False, ''You already have this book on loan'')
      else (case userprofiles s user of
              None \<Rightarrow> Inl DoesNotExist
            | Some p \<Rightarrow>
                if int (length (active_loans_of s user)) \<ge> loan_limit p
                  then Inr (False, ''You have reached your loan limit'')
                else if has_pending_fines s user
                  then Inr (False, ''Please pay pending fines first'')
                else Inr (True, ''Can borrow'')))"

section \<open>The views (library/views.py)\<close>

text \<open>
  A view answers with a flash message and a redirect, or raises. The outcome names the
  branch taken:
  \<^item> \<open>UNAVAILABLE\<close>: "This book is currently not available."
  \<^item> \<open>ALREADY_BORROWED\<close>: "You have already borrowed this book."
  \<^item> \<open>FINES_OUTSTANDING\<close>: "Please pay your pending fines before borrowing new books."
  \<^item> \<open>LOAN_LIMIT_REACHED\<close>: "You have reached the maximum number of active loans (5)."
  \<^item> \<open>BOOK_AVAILABLE\<close>: "This book is currently available for borrowing."
  \<^item> \<open>DUPLICATE_RESERVATION\<close>: "You already have a reservation for this book."
  \<^item> \<open>ALREADY_HOLDING\<close>: "You currently have this book on loan."
  \<^item> \<open>BORROWED\<close>, \<open>RETURNED\<close> (with the late fee), \<open>RESERVED\<close> (with the queue
    position), \<open>CANCELLED\<close>, \<open>LISTED\<close>: the success branches.
  \<^item> \<open>Raised e\<close>: the view raised \<open>e\<close>; \<open>get_object_or_404\<close> raises \<open>Http404\<close>.
  The views run outside any transaction block, so the store returned with \<open>Raised e\<close>
  holds the rows saved before the exception.
\<close>

datatype outcome =
    UNAVAILABLE | ALREADY_BORROWED | FINES_OUTSTANDING | LOAN_LIMIT_REACHED
  | BOOK_AVAILABLE | DUPLICATE_RESERVATION | ALREADY_HOLDING
  | BORROWED | RETURNED decimal | RESERVED int | CANCELLED | LISTED
  | Raised error

definition open_reservations :: "store \<Rightarrow> nat \<Rightarrow> nat \<Rightarrow> (nat \<times> reservation) list" where
  "open_reservations s book_id user =
     filter (\<lambda>(rid, r). res_book r = book_id \<and> res_user r = user
                        \<and> (res_status r = ResPending \<or> res_status r = ResAvailable))
       (objects (reservations s))"

definition next_reservation_of :: "store \<Rightarrow> nat \<Rightarrow> (nat \<times> reservation) option" where
  "next_reservation_of s book_id =
     first (order_by (\<lambda>(rid, r). reservation_date r) (pending_reservations s book_id))"

definition late_return_reason :: "book \<Rightarrow> string" where
  "late_return_reason b = ''Late return of \"'' @ title b @ ''\"''"

definition borrow_book :: "datetime \<Rightarrow> nat \<Rightarrow> nat \<Rightarrow> store \<Rightarrow> outcome \<times> store" where
  "borrow_book now user book_id s =
     (case get_book s book_id of
        None \<Rightarrow> (Raised Http404, s)
      | Some b \<Rightarrow>
          if available_copies b \<le> 0 then (UNAVAILABLE, s)
          else if has_active_loan s book_id user then (ALREADY_BORROWED, s)
          else if has_pending_fines s user then (FINES_OUTSTANDING, s)
          else if int (length (active_loans_of s user)) \<ge> 5 then (LOAN_LIMIT_REACHED, s)
          else
            let new_loan = \<lparr>loan_book = book_id, loan_user = user, loan_date = now,
                            due_date = now + timedelta_days 14, return_date = None,
                            loan_status = LoanActive, renewal_count = 0, fine_amount = 0\<rparr>;
                s1 = s\<lparr>loans := loans s @ [new_loan]\<rparr>;
                b1 = b\<lparr>available_copies := available_copies b - 1\<rparr>;
                s2 = save_book (book_id, b1) s1
            in (case open_reservations s2 book_id user of
                  _ # _ # _ \<Rightarrow> (Raised MultipleObjectsReturned, s2)
                | rows \<Rightarrow>
                    let s3 = (case rows of
                                [(rid, r)] \<Rightarrow> save_reservation (rid, r\<lparr>res_status := ResFulfilled\<rparr>) s2
                              | _ \<Rightarrow> s2)
                    in (case next_reservation_of s3 book_id of
                          Some (rid, r) \<Rightarrow>
                            if available_copies b1 > 0
                            then (BORROWED, save_reservation (rid, r\<lparr>res_status := ResAvailable\<rparr>) s3)
                            else (BORROWED, s3)
                        | None \<Rightarrow> (BORROWED, s3))))"

text \<open>
  \<open>return_book\<close> assigns \<open>status = 'returned'\<close> before it asks \<open>is_overdue()\<close>. The fine
  branch reads \<open>loan.book.title\<close> before anything is saved.
\<close>

definition return_book :: "datetime \<Rightarrow> nat \<Rightarrow> nat \<Rightarrow> store \<Rightarrow> outcome \<times> store" where
  "return_book now user loan_id s =
     (if \<not> (loan_id < length (loans s) \<and> loan_user (loans s ! loan_id) = user
             \<and> loan_status (loans s ! loan_id) = LoanActive)
      then (Raised Http404, s)
      else
        let l1 = (loans s ! loan_id)\<lparr>return_date := Some now, loan_status := LoanReturned\<rparr>;
            fined =
              (if is_overdue now l1 then
                 (case calculate_fine now l1 of (fa, l2) \<Rightarrow>
                    if fa > 0 then
                      (case get_book s (loan_book l2) of
                         None \<Rightarrow> Inl DoesNotExist
                       | Some b \<Rightarrow>
                           Inr (fa, l2,
                                s\<lparr>fines := fines s @
                                   [\<lparr>fine_user = user, fine_loan = loan_id, amount = fa,
                                     reason = late_return_reason b, created_date = now,
                                     fine_status = FinePending\<rparr>]\<rparr>))
                    else Inr (fa, l2, s))
               else Inr (0, l1, s))
        in (case fined of
              Inl e \<Rightarrow> (Raised e, s)
            | Inr (fa, l2, s1) \<Rightarrow>
                let s2 = save_loan (loan_id, l2) s1
                in (case get_book s2 (loan_book l2) of
                      None \<Rightarrow> (Raised DoesNotExist, s2)
                    | Some b \<Rightarrow>
                        let s3 = save_book (loan_book l2,
                                            b\<lparr>available_copies := available_copies b + 1\<rparr>) s2
                        in (case next_reservation_of s3 (loan_book l2) of
                              Some (rid, r) \<Rightarrow>
                                (RETURNED fa,
                                 save_reservation
                                   (rid, r\<lparr>res_status := ResAvailable,
                                            expiry_date := now + timedelta_days 7\<rparr>) s3)
                            | None \<Rightarrow> (RETURNED fa, s3)))))"

text \<open>
  \<open>Reservation.Meta\<close> declares \<open>unique_together = ['book', 'user']\<close>: the store refuses a
  second row for the pair, whatever the status of the first, with \<open>IntegrityError\<close>.
\<close>

definition reserve_book :: "datetime \<Rightarrow> nat \<Rightarrow> nat \<Rightarrow> store \<Rightarrow> outcome \<times> store" where
  "reserve_book now user book_id s =
     (case get_book s book_id of
        None \<Rightarrow> (Raised Http404, s)
      | Some b \<Rightarrow>
          if available_copies b > 0 then (BOOK_AVAILABLE, s)
          else if open_reservations s book_id user \<noteq> [] then (DUPLICATE_RESERVATION, s)
          else if has_active_loan s book_id user then (ALREADY_HOLDING, s)
          else if list_ex (\<lambda>r. res_book r = book_id \<and> res_user r = user) (reservations s)
            then (Raised IntegrityError, s)
          else
            let r = \<lparr>res_book = book_id, res_user = user, reservation_date = now,
                     expiry_date = now + timedelta_days 7, res_status = ResPending\<rparr>;
                s1 = s\<lparr>reservations := reservations s @ [r]\<rparr>;
                queue_position =
                  int (length (filter (\<lambda>(rid, q). reservation_date q < reservation_date r)
                                 (pending_reservations s1 book_id))) + 1
            in (RESERVED queue_position, s1))"

definition cancel_reservation :: "nat \<Rightarrow> nat \<Rightarrow> store \<Rightarrow> outcome \<times> store" where
  "cancel_reservation user reservation_id s =
     (if \<not> (reservation_id < length (reservations s)
             \<and> res_user (reservations s ! reservation_id) = user
             \<and> (res_status (reservations s ! reservation_id) = ResPending
                 \<or> res_status (reservations s ! reservation_id) = ResAvailable))
      then (Raised Http404, s)
      else (CANCELLED,
            save_reservation
              (reservation_id, (reservations s ! reservation_id)\<lparr>res_status := ResCancelled\<rparr>) s))"

subsection \<open>The overdue sweep of my_loans\<close>

text \<open>
  \<open>Fine.objects.get_or_create(user, loan, defaults)\<close> followed by the update of an
  existing row. \<open>get\<close> raises when more than one row matches.
\<close>

definition fines_for :: "store \<Rightarrow> nat \<Rightarrow> nat \<Rightarrow> (nat \<times> fine) list" where
  "fines_for s user loan_id =
     filter (\<lambda>(fid, f). fine_user f = user \<and> fine_loan f = loan_id) (objects (fines s))"

definition upsert_fine ::
  "datetime \<Rightarrow> nat \<Rightarrow> nat \<Rightarrow> decimal \<Rightarrow> string \<Rightarrow> store \<Rightarrow> error + store" where
  "upsert_fine now user loan_id fa why s =
     (case fines_for s user loan_id of
        [] \<Rightarrow> Inr (s\<lparr>fines := fines s @
                      [\<lparr>fine_user = user, fine_loan = loan_id, amount = fa, reason = why,
                        created_date = now, fine_status = FinePending\<rparr>]\<rparr>)
      | [(fid, f)] \<Rightarrow> Inr (save_fine (fid, f\<lparr>amount := fa\<rparr>) s)
      | _ \<Rightarrow> Inl MultipleObjectsReturned)"

text \<open>
  The queryset of \<open>my_loans\<close>: the user's loans joined with their books
  (\<open>select_related('book')\<close>, an inner join), newest first. It is evaluated once, when the
  loop starts: the loop body works on the instances loaded then.
\<close>

definition my_loans_queryset :: "store \<Rightarrow> nat \<Rightarrow> (nat \<times> loan) list" where
  "my_loans_queryset s user =
     order_by (\<lambda>(lid, l). - loan_date l)
       (filter (\<lambda>(lid, l). loan_user l = user \<and> loan_book l < length (books s))
          (objects (loans s)))"

fun sweep_loans :: "datetime \<Rightarrow> nat \<Rightarrow> (nat \<times> loan) list \<Rightarrow> store \<Rightarrow> outcome \<times> store" where
  "sweep_loans now user [] s = (LISTED, s)"
| "sweep_loans now user ((lid, l) # rest) s =
     (if loan_status l = LoanActive \<and> is_overdue now l then
        (case calculate_fine now l of (fa, l') \<Rightarrow>
           if fa > 0 then
             (case upsert_fine now user lid fa (late_return_reason (books s ! loan_book l)) s of
                Inl e \<Rightarrow> (Raised e, s)
              | Inr s1 \<Rightarrow> sweep_loans now user rest (save_loan (lid, l') s1))
           else sweep_loans now user rest (save_loan (lid, l') s))
      else sweep_loans now user rest s)"

definition my_loans :: "datetime \<Rightarrow> nat \<Rightarrow> store \<Rightarrow> outcome \<times> store" where
  "my_loans now user s = sweep_loans now user (my_loans_queryset s user) s"

subsection \<open>The expiry sweep of my_reservations\<close>

definition is_expired :: "datetime \<Rightarrow> reservation \<Rightarrow> bool" where
  "is_expired now r =
     (now > expiry_date r \<and> res_status r \<noteq> ResFulfilled \<and> res_status r \<noteq> ResCancelled)"

definition my_reservations_queryset :: "store \<Rightarrow> nat \<Rightarrow> (nat \<times> reservation) list" where
  "my_reservations_queryset s user =
     order_by (\<lambda>(rid, r). - reservation_date r)
       (filter (\<lambda>(rid, r). res_user r = user \<and> res_book r < length (books s))
          (objects (reservations s)))"

fun sweep_reservations :: "datetime \<Rightarrow> (nat \<times> reservation) list \<Rightarrow> store \<Rightarrow> store" where
  "sweep_reservations now [] s = s"
| "sweep_reservations now ((rid, r) # rest) s =
     (if is_expired now r \<and> (res_status r = ResPending \<or> res_status r = ResAvailable)
      then sweep_reservations now rest (save_reservation (rid, r\<lparr>res_status := ResExpired\<rparr>) s)
      else sweep_reservations now rest s)"

definition my_reservations :: "datetime \<Rightarrow> nat \<Rightarrow> store \<Rightarrow> outcome \<times> store" where
  "my_reservations now user s =
     (LISTED, sweep_reservations now (my_reservations_queryset s user) s)"

section \<open>Properties of the store\<close>

text \<open>
  The copy count of every book against the loans on it whose status is counted:
  \<open>available_copies = total_copies - count\<close>.
\<close>

definition copies_match :: "(loan_status_choices \<Rightarrow> bool) \<Rightarrow> store \<Rightarrow> bool" where
  "copies_match counted s =
     list_all (\<lambda>(bid, b). available_copies b = total_copies b -
                 int (length (filter (\<lambda>l. loan_book l = bid \<and> counted (loan_status l)) (loans s))))
       (objects (books s))"

text \<open>The invariant as the specification words it: only \<open>active\<close> loans count.\<close>

definition spec_copies_invariant :: "store \<Rightarrow> bool" where
  "spec_copies_invariant s = copies_match (\<lambda>st. st = LoanActive) s"

text \<open>The same equation with the loans that are out: \<open>active\<close> or \<open>overdue\<close>.\<close>

definition out_copies_invariant :: "store \<Rightarrow> bool" where
  "out_copies_invariant s = copies_match (\<lambda>st. st = LoanActive \<or> st = LoanOverdue) s"

text \<open>\<open>unique_together = ['book', 'user']\<close> on the Reservation table.\<close>

definition unique_together :: "store \<Rightarrow> bool" where
  "unique_together s = distinct (map (\<lambda>r. (res_book r, res_user r)) (reservations s))"

text \<open>
  A list of loan instances is loaded from a store when every instance is the row at its
  key and no key occurs twice, as in an evaluated queryset.
\<close>

definition loaded :: "(nat \<times> loan) list \<Rightarrow> store \<Rightarrow> bool" where
  "loaded qs s =
     (distinct (map fst qs) \<and> list_all (\<lambda>(i, l). i < length (loans s) \<and> loans s ! i = l) qs)"

definition reload :: "store \<Rightarrow> (nat \<times> loan) list \<Rightarrow> (nat \<times> loan) list" where
  "reload s qs = map (\<lambda>(i, l). (i, loans s ! i)) qs"

text \<open>What the sweep assigns to an overdue loan: \<open>calculate_fine\<close> on the instance.\<close>

definition flagged :: "datetime \<Rightarrow> loan \<Rightarrow> loan" where
  "flagged now l = l\<lparr>loan_status := LoanOverdue, fine_amount := days_overdue now l * 100\<rparr>"

definition fine_count :: "store \<Rightarrow> nat \<Rightarrow> nat \<Rightarrow> nat" where
  "fine_count s user loan_id = length (fines_for s user loan_id)"

subsection \<open>Stores used as concrete inputs\<close>

text \<open>One copy of one book, lent to user 1 and due at day 14.\<close>

definition late_store :: store where
  "late_store =
     \<lparr>books = [\<lparr>title = ''Emma'', total_copies = 1, available_copies = 0\<rparr>],
      loans = [\<lparr>loan_book = 0, loan_user = 1, loan_date = 0, due_date = timedelta_days 14,
                return_date = None, loan_status = LoanActive, renewal_count = 0,
                fine_amount = 0\<rparr>],
      reservations = [], fines = [], userprofiles = Map.empty\<rparr>"

text \<open>User 1 has \<open>loan_limit = 1\<close> and one active loan; another book is on the shelf.\<close>

definition limit_store :: store where
  "limit_store =
     \<lparr>books = [\<lparr>title = ''Emma'', total_copies = 1, available_copies = 1\<rparr>,
               \<lparr>title = ''Persuasion'', total_copies = 1, available_copies = 0\<rparr>],
      loans = [\<lparr>loan_book = 1, loan_user = 1, loan_date = 0, due_date = timedelta_days 14,
                return_date = None, loan_status = LoanActive, renewal_count = 0,
                fine_amount = 0\<rparr>],
      reservations = [], fines = [], userprofiles = [1 \<mapsto> \<lparr>loan_limit = 1\<rparr>]\<rparr>"

text \<open>Two copies on the shelf while user 2 still waits in the queue since day 0.\<close>

definition queue_store :: store where
  "queue_store =
     \<lparr>books = [\<lparr>title = ''Emma'', total_copies = 2, available_copies = 2\<rparr>],
      loans = [],
      reservations = [\<lparr>res_book = 0, res_user = 2, reservation_date = 0,
                       expiry_date = timedelta_days 7, res_status = ResPending\<rparr>],
      fines = [], userprofiles = Map.empty\<rparr>"

text \<open>User 1 owes a fine; book 0 is lent out to user 2, book 1 is on the shelf.\<close>

definition fined_store :: store where
  "fined_store =
     \<lparr>books = [\<lparr>title = ''Emma'', total_copies = 1, available_copies = 0\<rparr>,
               \<lparr>title = ''Persuasion'', total_copies = 1, available_copies = 1\<rparr>],
      loans = [\<lparr>loan_book = 0, loan_user = 2, loan_date = 0, due_date = timedelta_days 14,
                return_date = None, loan_status = LoanActive,
                renewal_count = 0, fine_amount = 0\<rparr>],
      reservations = [],
      fines = [\<lparr>fine_user = 1, fine_loan = 7, amount = 300, reason = ''Late'',
                created_date = 0, fine_status = FinePending\<rparr>],
      userprofiles = Map.empty\<rparr>"

text \<open>User 1 cancelled a reservation of a book that is still lent out to user 2.\<close>

definition cancelled_store :: store where
  "cancelled_store =
     \<lparr>books = [\<lparr>title = ''Emma'', total_copies = 1, available_copies = 0\<rparr>],
      loans = [\<lparr>loan_book = 0, loan_user = 2, loan_date = 0, due_date = timedelta_days 14,
                return_date = None, loan_status = LoanActive, renewal_count = 0,
                fine_amount = 0\<rparr>],
      reservations = [\<lparr>res_book = 0, res_user = 1, reservation_date = 5,
                       expiry_date = 5 + timedelta_days 7, res_status = ResCancelled\<rparr>],
      fines = [], userprofiles = Map.empty\<rparr>"

section \<open>Auxiliary facts\<close>

lemmas time_defs = timedelta_days_def usec_per_day_def date_of_def

lemmas table_defs = objects_def order_by_def first_def get_book_def save_book_def save_loan_def
  save_reservation_def save_fine_def enumerate_eq_zip

lemmas query_defs = pending_reservations_def open_reservations_def next_reservation_of_def
  active_loans_of_def has_active_loan_def has_pending_fines_def fines_for_def
  my_loans_queryset_def my_reservations_queryset_def

lemmas loan_defs = is_overdue_def days_overdue_def calculate_fine_def

lemma in_objects_iff: "((i, x) \<in> set (objects tbl)) = (i < length tbl \<and> tbl ! i = x)"
  by (auto simp: objects_def in_set_enumerate_eq)

lemma store_simps [simp]:
  "books (save_loan a s) = books s" "reservations (save_loan a s) = reservations s"
  "fines (save_loan a s) = fines s" "userprofiles (save_loan a s) = userprofiles s"
  "loans (save_loan a s) = (loans s)[fst a := snd a]"
  "loans (save_book b s) = loans s" "reservations (save_book b s) = reservations s"
  "fines (save_book b s) = fines s" "userprofiles (save_book b s) = userprofiles s"
  "books (save_book b s) = (books s)[fst b := snd b]"
  "books (save_reservation c s) = books s" "loans (save_reservation c s) = loans s"
  "fines (save_reservation c s) = fines s" "userprofiles (save_reservation c s) = userprofiles s"
  "reservations (save_reservation c s) = (reservations s)[fst c := snd c]"
  "books (save_fine d s) = books s" "loans (save_fine d s) = loans s"
  "reservations (save_fine d s) = reservations s" "userprofiles (save_fine d s) = userprofiles s"
  "fines (save_fine d s) = (fines s)[fst d := snd d]"
  by (simp_all add: save_loan_def save_book_def save_reservation_def save_fine_def)

lemma calculate_fine_eq:
  "calculate_fine now l =
     (if is_overdue now l
      then (days_overdue now l * 100,
            l\<lparr>loan_status := LoanOverdue, fine_amount := days_overdue now l * 100\<rparr>)
      else (0, l))"
proof (cases "loan_status l = LoanOverdue")
  case True
  then have "l\<lparr>loan_status := LoanOverdue\<rparr> = l" by (cases l) simp
  then show ?thesis using True
    by (simp add: calculate_fine_def is_overdue_def Let_def)
next
  case False
  then show ?thesis
    by (simp add: calculate_fine_def is_overdue_def Let_def)
qed

lemma calculate_fine_fields:
  assumes "calculate_fine now l = (fa, l')"
  shows "loan_book l' = loan_book l" "loan_user l' = loan_user l" "loan_date l' = loan_date l"
    "due_date l' = due_date l" "return_date l' = return_date l" "renewal_count l' = renewal_count l"
proof -
  have "l' = snd (calculate_fine now l)" using assms by simp
  then show "loan_book l' = loan_book l" "loan_user l' = loan_user l" "loan_date l' = loan_date l"
    "due_date l' = due_date l" "return_date l' = return_date l" "renewal_count l' = renewal_count l"
    by (simp_all add: calculate_fine_eq)
qed

lemma calculate_fine_overdue:
  assumes "calculate_fine now l = (fa, l')" "is_overdue now l"
  shows "loan_status l' = LoanOverdue" "fa = days_overdue now l * 100" "fine_amount l' = fa"
proof -
  have "l' = snd (calculate_fine now l)" "fa = fst (calculate_fine now l)" using assms by simp_all
  then show "loan_status l' = LoanOverdue" "fa = days_overdue now l * 100" "fine_amount l' = fa"
    using assms(2) by (simp_all add: calculate_fine_eq)
qed

subsection \<open>The next reservation and the return path\<close>

lemma first_order_by:
  assumes "first (order_by k rows) = Some x"
  shows "x \<in> set rows \<and> (\<forall>y \<in> set rows. k x \<le> k y)"
proof -
  from assms obtain rest where e: "sort_key k rows = x # rest"
    by (auto simp: first_def order_by_def split: list.splits)
  have "sorted (map k (sort_key k rows))" by (rule sorted_sort_key)
  with e have "\<forall>y \<in> set (x # rest). k x \<le> k y" by auto
  moreover have "set (x # rest) = set rows" using e set_sort [of k rows] by simp
  ultimately show ?thesis by auto
qed

text \<open>
  The reservation that both views promote is a pending reservation of the book, and no
  pending reservation of the book has an earlier \<open>reservation_date\<close>.
\<close>

lemma next_reservation_of_earliest:
  assumes "next_reservation_of s book_id = Some (rid, r)"
  shows "rid < length (reservations s) \<and> reservations s ! rid = r \<and>
         res_book r = book_id \<and> res_status r = ResPending \<and>
         (\<forall>q \<in> set (reservations s).
            res_book q = book_id \<and> res_status q = ResPending \<longrightarrow>
            reservation_date r \<le> reservation_date q)"
proof -
  let ?k = "\<lambda>(rid, r). reservation_date r"
  from assms have f: "first (order_by ?k (pending_reservations s book_id)) = Some (rid, r)"
    by (simp only: next_reservation_of_def)
  note m = first_order_by [OF f]
  from m have a: "rid < length (reservations s)" "reservations s ! rid = r"
    "res_book r = book_id" "res_status r = ResPending"
    by (simp_all add: pending_reservations_def in_objects_iff)
  have "reservation_date r \<le> reservation_date q"
    if q: "q \<in> set (reservations s)" "res_book q = book_id" "res_status q = ResPending" for q
  proof -
    from q(1) obtain i where "i < length (reservations s)" "reservations s ! i = q"
      by (auto simp: in_set_conv_nth)
    with q(2,3) have "(i, q) \<in> set (pending_reservations s book_id)"
      by (simp add: pending_reservations_def in_objects_iff)
    with m have "?k (rid, r) \<le> ?k (i, q)" by blast
    then show ?thesis by simp
  qed
  with a show ?thesis by blast
qed

lemma return_book_fines: "fines (snd (return_book now user lid s)) = fines s"
  by (simp add: return_book_def is_overdue_def Let_def split: option.splits prod.splits)

text \<open>On the return path the promoted reservation gets the new expiry date.\<close>

lemma return_book_promotes:
  assumes "lid < length (loans s)" "loan_user (loans s ! lid) = user"
    "loan_status (loans s ! lid) = LoanActive"
    "loan_book (loans s ! lid) < length (books s)"
    "next_reservation_of s (loan_book (loans s ! lid)) = Some (rid, r)"
  shows "reservations (snd (return_book now user lid s)) =
           (reservations s)[rid := r\<lparr>res_status := ResAvailable,
                                     expiry_date := now + timedelta_days 7\<rparr>]"
proof -
  have "next_reservation_of (save_book b (save_loan a s)) k = next_reservation_of s k" for a b k
    by (simp add: next_reservation_of_def pending_reservations_def)
  with assms show ?thesis
    by (simp add: return_book_def is_overdue_def get_book_def Let_def)
qed

section \<open>Renewal\<close>

text \<open>
  C7. A loan whose \<open>renewal_count\<close> is 3 cannot be renewed: \<open>renew\<close> answers with the
  maximum-renewals message whatever the time, the due date and the reservations on the
  book are, and neither the instance (so neither \<open>due_date\<close> nor \<open>renewal_count\<close>) nor
  the store changes.
\<close>

theorem renew_max_renewals:
  assumes "renewal_count l = 3"
  shows "renew now s (lid, l) = (Inr (False, ''Maximum renewals reached''), (lid, l), s)"
  using assms by (simp add: renew_def can_be_renewed_def)

text \<open>
  The theorem at a loan that is renewed three times, overdue at day 20, on a book that
  user 2 is waiting for.
\<close>

theorem renew_max_renewals_witness:
  "renewal_count ((loans late_store ! 0)\<lparr>renewal_count := 3\<rparr>) = 3 \<and>
   is_overdue (timedelta_days 20) ((loans late_store ! 0)\<lparr>renewal_count := 3\<rparr>) \<and>
   renew (timedelta_days 20) (late_store\<lparr>reservations := reservations queue_store\<rparr>)
         (0, (loans late_store ! 0)\<lparr>renewal_count := 3\<rparr>) =
     (Inr (False, ''Maximum renewals reached''),
      (0, (loans late_store ! 0)\<lparr>renewal_count := 3\<rparr>),
      late_store\<lparr>reservations := reservations queue_store\<rparr>)"
  using renew_max_renewals
    [of "(loans late_store ! 0)\<lparr>renewal_count := 3\<rparr>" "timedelta_days 20"
        "late_store\<lparr>reservations := reservations queue_store\<rparr>" 0]
  by (simp add: late_store_def is_overdue_def time_defs)

section \<open>Returning a book late\<close>

text \<open>
  C2. The specification asks that a loan returned after its due date gets a Fine of one
  unit per calendar day. The loan of \<open>late_store\<close> is due at day 14 and returned at day
  20, six days late. \<open>return_book\<close> marks it returned with the return date, gives the copy
  back and reports a fee of 0: \<open>is_overdue()\<close> is asked after the status became
  \<open>returned\<close> and answers False, so no Fine row is created and \<open>fine_amount\<close> stays 0.
\<close>

theorem return_book_late_creates_no_fine:
  "is_overdue (timedelta_days 20) (loans late_store ! 0) \<and>
   days_overdue (timedelta_days 20) (loans late_store ! 0) = 6 \<and>
   return_book (timedelta_days 20) 1 0 late_store =
     (RETURNED 0,
      late_store
        \<lparr>books := [\<lparr>title = ''Emma'', total_copies = 1, available_copies = 1\<rparr>],
         loans := [\<lparr>loan_book = 0, loan_user = 1, loan_date = 0, due_date = timedelta_days 14,
                    return_date = Some (timedelta_days 20), loan_status = LoanReturned,
                    renewal_count = 0, fine_amount = 0\<rparr>]\<rparr>) \<and>
   fines (snd (return_book (timedelta_days 20) 1 0 late_store)) = []"
  by (simp add: return_book_def late_store_def time_defs table_defs query_defs loan_defs)

section \<open>The loan limit\<close>

text \<open>
  C4. The specification asks that a borrower is refused once the number of their active
  loans reaches their own \<open>loan_limit\<close>. User 1 of \<open>limit_store\<close> has \<open>loan_limit = 1\<close>
  and one active loan. \<open>Book.can_be_borrowed_by\<close> refuses them at the loan limit, but
  \<open>borrow_book\<close> compares the count with the constant 5 only and lends the second book.
\<close>

theorem borrow_book_ignores_loan_limit:
  "userprofiles limit_store 1 = Some \<lparr>loan_limit = 1\<rparr> \<and>
   length (active_loans_of limit_store 1) = 1 \<and>
   can_be_borrowed_by limit_store (0, books limit_store ! 0) 1 =
     Inr (False, ''You have reached your loan limit'') \<and>
   fst (borrow_book 5 1 0 limit_store) = BORROWED \<and>
   length (active_loans_of (snd (borrow_book 5 1 0 limit_store)) 1) = 2"
  by (simp add: borrow_book_def can_be_borrowed_by_def is_available_def limit_store_def
      time_defs table_defs query_defs)

section \<open>Promotion of the next reservation\<close>

text \<open>
  C5. The specification asks that a promoted reservation gets \<open>expiry_date = now + 7 days\<close>
  on both paths. In \<open>queue_store\<close> user 2 reserved at day 0 with the placeholder expiry of
  day 7. User 3 borrows one of the two copies at day 10: \<open>borrow_book\<close> promotes the
  reservation of user 2 to \<open>available\<close> and leaves its \<open>expiry_date\<close> at day 7, which is
  not day 17 and is already past. \<open>return_book\<close> assigns the new expiry date; \<open>borrow_book\<close>
  has no such assignment.
\<close>

theorem borrow_book_promotes_without_expiry:
  "fst (borrow_book (timedelta_days 10) 3 0 queue_store) = BORROWED \<and>
   reservations (snd (borrow_book (timedelta_days 10) 3 0 queue_store)) =
     [\<lparr>res_book = 0, res_user = 2, reservation_date = 0,
       expiry_date = timedelta_days 7, res_status = ResAvailable\<rparr>] \<and>
   timedelta_days 7 \<noteq> timedelta_days 10 + timedelta_days 7 \<and>
   is_expired (timedelta_days 10)
     (reservations (snd (borrow_book (timedelta_days 10) 3 0 queue_store)) ! 0)"
  by (simp add: borrow_book_def queue_store_def is_expired_def
      time_defs table_defs query_defs)

section \<open>Borrowing with an unpaid fine\<close>

text \<open>
  C8, as stated, fails: user 1 of \<open>fined_store\<close> has a pending fine, and their request
  for book 0, which has no copy on the shelf, is answered with \<open>UNAVAILABLE\<close>, the first
  check of \<open>borrow_book\<close>, not with \<open>FINES_OUTSTANDING\<close>.
\<close>

theorem borrow_with_pending_fine_counterexample:
  "has_pending_fines fined_store 1 \<and>
   borrow_book 0 1 0 fined_store = (UNAVAILABLE, fined_store)"
  by (simp add: borrow_book_def fined_store_def table_defs query_defs)

text \<open>
  C8, amended. A borrower with a pending fine never borrows and the store is left as it
  was. The answer is \<open>FINES_OUTSTANDING\<close> when the book exists, has a copy on the shelf
  and is not already on loan to the borrower; otherwise it is the answer of the earlier
  check that fails (not found, \<open>UNAVAILABLE\<close>, \<open>ALREADY_BORROWED\<close>).
\<close>

theorem borrow_with_pending_fine:
  assumes "has_pending_fines s user"
  shows "borrow_book now user book_id s =
     ((case get_book s book_id of
         None \<Rightarrow> Raised Http404
       | Some b \<Rightarrow>
           if available_copies b \<le> 0 then UNAVAILABLE
           else if has_active_loan s book_id user then ALREADY_BORROWED
           else FINES_OUTSTANDING), s)"
  using assms by (simp add: borrow_book_def split: option.splits)

theorem borrow_with_pending_fine_witness:
  "has_pending_fines fined_store 1 \<and>
   borrow_book 0 1 1 fined_store = (FINES_OUTSTANDING, fined_store)"
proof -
  have h: "has_pending_fines fined_store 1"
    by (simp add: fined_store_def has_pending_fines_def)
  have "get_book fined_store 1 =
          Some \<lparr>title = ''Persuasion'', total_copies = 1, available_copies = 1\<rparr>"
    by (simp add: fined_store_def get_book_def)
  moreover have "\<not> has_active_loan fined_store 1 1"
    by (simp add: fined_store_def has_active_loan_def)
  ultimately show ?thesis
    using h borrow_with_pending_fine [OF h, of 0 1] by simp
qed

section \<open>Reserving again after a terminal reservation\<close>

lemma open_reservations_empty:
  assumes u: "unique_together s"
    and r: "rid < length (reservations s)" "res_book (reservations s ! rid) = book_id"
      "res_user (reservations s ! rid) = user"
      "res_status (reservations s ! rid) \<noteq> ResPending"
      "res_status (reservations s ! rid) \<noteq> ResAvailable"
  shows "open_reservations s book_id user = []"
proof -
  have "\<not> (res_book q = book_id \<and> res_user q = user \<and>
           (res_status q = ResPending \<or> res_status q = ResAvailable))"
    if "(i, q) \<in> set (objects (reservations s))" for i q
  proof
    assume a: "res_book q = book_id \<and> res_user q = user \<and>
           (res_status q = ResPending \<or> res_status q = ResAvailable)"
    from that have i: "i < length (reservations s)" "reservations s ! i = q"
      by (simp_all add: in_objects_iff)
    let ?k = "map (\<lambda>r. (res_book r, res_user r)) (reservations s)"
    have e: "?k ! i = ?k ! rid" using i r a by simp
    have d: "distinct ?k" using u by (simp add: unique_together_def)
    have "i < length ?k" "rid < length ?k" using i r by simp_all
    with d e have "i = rid" by (simp only: nth_eq_iff_index_eq)
    with i a r show False by auto
  qed
  then show ?thesis
    unfolding open_reservations_def by (auto simp: filter_empty_conv)
qed

lemma reserve_book_unique:
  assumes "unique_together s"
  shows "unique_together (snd (reserve_book now user book_id s))"
  using assms
  by (auto simp: reserve_book_def unique_together_def list_ex_iff Let_def split: option.splits)

lemma reserve_book_existing_row:
  assumes "rid < length (reservations s)" "res_book (reservations s ! rid) = book_id"
      "res_user (reservations s ! rid) = user"
  shows "list_ex (\<lambda>r. res_book r = book_id \<and> res_user r = user) (reservations s)"
  unfolding list_ex_iff using assms nth_mem by blast

text \<open>
  C10. The store keeps at most one Reservation row per (book, user): \<open>reserve_book\<close>,
  the one place where a Reservation row is created, preserves \<open>unique_together\<close> for
  every user and book. When the pair already has a row in a terminal status
  (\<open>cancelled\<close>, \<open>expired\<close> or \<open>fulfilled\<close>), the duplicate check of \<open>reserve_book\<close>, which
  looks at \<open>pending\<close> and \<open>available\<close> rows only, finds nothing; no call adds a row or
  changes the store; and a call that passes the other checks (the book exists, has no
  copy on the shelf and is not on loan to the user) raises \<open>IntegrityError\<close>.
\<close>

theorem reserve_after_terminal_reservation:
  assumes "unique_together s"
    and "rid < length (reservations s)"
    and "res_book (reservations s ! rid) = book_id"
    and "res_user (reservations s ! rid) = user"
    and "res_status (reservations s ! rid) = ResCancelled
         \<or> res_status (reservations s ! rid) = ResExpired
         \<or> res_status (reservations s ! rid) = ResFulfilled"
  shows "unique_together (snd (reserve_book now' user' book_id' s))
    \<and> open_reservations s book_id user = []
    \<and> snd (reserve_book now user book_id s) = s
    \<and> fst (reserve_book now user book_id s) =
        (case get_book s book_id of
           None \<Rightarrow> Raised Http404
         | Some b \<Rightarrow>
             if available_copies b > 0 then BOOK_AVAILABLE
             else if has_active_loan s book_id user then ALREADY_HOLDING
             else Raised IntegrityError)"
proof -
  have o: "open_reservations s book_id user = []"
    using assms by (auto intro: open_reservations_empty)
  have e: "list_ex (\<lambda>r. res_book r = book_id \<and> res_user r = user) (reservations s)"
    using assms(2-4) by (rule reserve_book_existing_row)
  have "reserve_book now user book_id s =
        ((case get_book s book_id of
           None \<Rightarrow> Raised Http404
         | Some b \<Rightarrow>
             if available_copies b > 0 then BOOK_AVAILABLE
             else if has_active_loan s book_id user then ALREADY_HOLDING
             else Raised IntegrityError), s)"
    using o e by (simp add: reserve_book_def split: option.splits)
  then show ?thesis
    using o reserve_book_unique [OF assms(1)] by simp
qed

theorem reserve_after_terminal_reservation_witness:
  "unique_together cancelled_store \<and>
   res_status (reservations cancelled_store ! 0) = ResCancelled \<and>
   open_reservations cancelled_store 0 1 = [] \<and>
   reserve_book (timedelta_days 9) 1 0 cancelled_store = (Raised IntegrityError, cancelled_store)"
proof -
  have h: "unique_together cancelled_store" "0 < length (reservations cancelled_store)"
    "res_book (reservations cancelled_store ! 0) = 0"
    "res_user (reservations cancelled_store ! 0) = 1"
    "res_status (reservations cancelled_store ! 0) = ResCancelled
      \<or> res_status (reservations cancelled_store ! 0) = ResExpired
      \<or> res_status (reservations cancelled_store ! 0) = ResFulfilled"
    by (simp_all add: cancelled_store_def unique_together_def)
  have g: "get_book cancelled_store 0 =
             Some \<lparr>title = ''Emma'', total_copies = 1, available_copies = 0\<rparr>"
    "\<not> has_active_loan cancelled_store 0 1"
    "res_status (reservations cancelled_store ! 0) = ResCancelled"
    by (simp_all add: cancelled_store_def get_book_def has_active_loan_def)
  from reserve_after_terminal_reservation [OF h, of 0 2 0 "timedelta_days 9"] g h(1)
  show ?thesis by (simp add: prod_eq_iff)
qed

section \<open>The loop of the overdue sweep\<close>

lemma upsert_fine_frame:
  assumes "upsert_fine now user lid fa why s = Inr s1"
  shows "books s1 = books s" "loans s1 = loans s" "reservations s1 = reservations s"
    "userprofiles s1 = userprofiles s"
proof -
  consider "fines_for s user lid = []"
    | fid f where "fines_for s user lid = [(fid, f)]"
    | a b rest where "fines_for s user lid = a # b # rest"
    by (cases "fines_for s user lid" rule: remdups_adj.cases) auto
  then have "books s1 = books s \<and> loans s1 = loans s \<and> reservations s1 = reservations s \<and>
    userprofiles s1 = userprofiles s"
  proof cases
    case 1
    with assms show ?thesis by (auto simp: upsert_fine_def)
  next
    case 2
    with assms show ?thesis by (auto simp: upsert_fine_def)
  next
    case 3
    with assms show ?thesis by (simp add: upsert_fine_def)
  qed
  then show "books s1 = books s" "loans s1 = loans s" "reservations s1 = reservations s"
    "userprofiles s1 = userprofiles s" by simp_all
qed

lemma sweep_loans_Cons_cases:
  obtains
    (skip) "\<not> (loan_status l = LoanActive \<and> is_overdue now l)"
      "sweep_loans now user ((lid, l) # rest) s = sweep_loans now user rest s"
  | (raise) e where "loan_status l = LoanActive" "is_overdue now l"
      "0 < days_overdue now l * 100"
      "upsert_fine now user lid (days_overdue now l * 100)
         (late_return_reason (books s ! loan_book l)) s = Inl e"
      "sweep_loans now user ((lid, l) # rest) s = (Raised e, s)"
  | (save) s1 where "loan_status l = LoanActive" "is_overdue now l"
      "books s1 = books s" "loans s1 = loans s" "reservations s1 = reservations s"
      "userprofiles s1 = userprofiles s"
      "(\<not> 0 < days_overdue now l * 100 \<and> s1 = s) \<or>
       (0 < days_overdue now l * 100 \<and>
        upsert_fine now user lid (days_overdue now l * 100)
          (late_return_reason (books s ! loan_book l)) s = Inr s1)"
      "sweep_loans now user ((lid, l) # rest) s =
         sweep_loans now user rest (save_loan (lid, flagged now l) s1)"
proof (cases "loan_status l = LoanActive \<and> is_overdue now l")
  case False
  have "sweep_loans now user ((lid, l) # rest) s = sweep_loans now user rest s"
    by (simp only: sweep_loans.simps False if_False)
  with False show ?thesis using skip by blast
next
  case hit: True
  show ?thesis
  proof (cases "0 < days_overdue now l * 100")
    case False
    with hit have "sweep_loans now user ((lid, l) # rest) s =
         sweep_loans now user rest (save_loan (lid, flagged now l) s)"
      by (simp add: calculate_fine_eq flagged_def)
    with hit False show ?thesis using save [of s] by simp
  next
    case pos: True
    show ?thesis
    proof (cases "upsert_fine now user lid (days_overdue now l * 100)
          (late_return_reason (books s ! loan_book l)) s")
      case (Inl e)
      with hit pos have "sweep_loans now user ((lid, l) # rest) s = (Raised e, s)"
        by (simp add: calculate_fine_eq)
      with hit pos Inl show ?thesis using raise by simp
    next
      case (Inr s1)
      with hit pos have "sweep_loans now user ((lid, l) # rest) s =
         sweep_loans now user rest (save_loan (lid, flagged now l) s1)"
        by (simp add: calculate_fine_eq flagged_def)
      with hit pos Inr upsert_fine_frame [OF Inr] show ?thesis using save [of s1] by simp
    qed
  qed
qed

declare sweep_loans.simps [simp del]

lemma sweep_loans_frame:
  "books (snd (sweep_loans now user qs s)) = books s \<and>
   reservations (snd (sweep_loans now user qs s)) = reservations s \<and>
   userprofiles (snd (sweep_loans now user qs s)) = userprofiles s \<and>
   length (loans (snd (sweep_loans now user qs s))) = length (loans s)"
proof (induction qs arbitrary: s)
  case Nil
  then show ?case by (simp add: sweep_loans.simps)
next
  case (Cons q qs)
  obtain lid l where q: "q = (lid, l)" by (cases q)
  show ?case
  proof (cases rule: sweep_loans_Cons_cases [of l now user lid qs s])
    case skip
    then show ?thesis using Cons.IH [of s] by (simp add: q)
  next
    case (raise e)
    then show ?thesis by (simp add: q)
  next
    case (save s1)
    then show ?thesis using Cons.IH [of "save_loan (lid, flagged now l) s1"] by (simp add: q)
  qed
qed

lemma sweep_loans_untouched:
  "i \<notin> fst ` set qs \<Longrightarrow> loans (snd (sweep_loans now user qs s)) ! i = loans s ! i"
proof (induction qs arbitrary: s)
  case Nil
  then show ?case by (simp add: sweep_loans.simps)
next
  case (Cons q qs)
  obtain lid l where q: "q = (lid, l)" by (cases q)
  from Cons.prems q have ne: "i \<noteq> lid" and rest: "i \<notin> fst ` set qs" by auto
  show ?case
  proof (cases rule: sweep_loans_Cons_cases [of l now user lid qs s])
    case skip
    then show ?thesis using Cons.IH [OF rest, of s] by (simp add: q)
  next
    case (raise e)
    then show ?thesis by (simp add: q)
  next
    case (save s1)
    then show ?thesis
      using Cons.IH [OF rest, of "save_loan (lid, flagged now l) s1"] ne by (simp add: q)
  qed
qed

lemma loaded_Cons:
  "loaded ((lid, l) # qs) s =
     (lid \<notin> fst ` set qs \<and> lid < length (loans s) \<and> loans s ! lid = l \<and> loaded qs s)"
  by (auto simp: loaded_def)

lemma loaded_save:
  assumes "loaded qs s" "lid \<notin> fst ` set qs" "loans s1 = loans s"
  shows "loaded qs (save_loan (lid, l') s1)"
proof -
  have "i < length (loans s) \<and> (loans s)[lid := l'] ! i = x"
    if "(i, x) \<in> set qs" "i < length (loans s) \<and> loans s ! i = x" for i x
  proof -
    from that(1) assms(2) have "i \<noteq> lid" by force
    with that(2) show ?thesis by simp
  qed
  with assms show ?thesis
    by (auto simp: loaded_def list_all_iff)
qed

lemma flagged_fields [simp]:
  "loan_book (flagged now l) = loan_book l" "loan_user (flagged now l) = loan_user l"
  "loan_date (flagged now l) = loan_date l" "due_date (flagged now l) = due_date l"
  "loan_status (flagged now l) = LoanOverdue"
  "fine_amount (flagged now l) = days_overdue now l * 100"
  by (simp_all add: flagged_def)

text \<open>Every row after the loop is the row before it, or an active row flagged overdue.\<close>

lemma sweep_loans_rows:
  assumes "loaded qs s" "i < length (loans s)"
  shows "loans (snd (sweep_loans now user qs s)) ! i = loans s ! i \<or>
         (loan_status (loans s ! i) = LoanActive \<and> is_overdue now (loans s ! i) \<and>
          loans (snd (sweep_loans now user qs s)) ! i = flagged now (loans s ! i))"
  using assms
proof (induction qs arbitrary: s)
  case Nil
  then show ?case by (simp add: sweep_loans.simps)
next
  case (Cons q qs)
  obtain lid l where q: "q = (lid, l)" by (cases q)
  from Cons.prems(1) have ld: "lid \<notin> fst ` set qs" "lid < length (loans s)" "loans s ! lid = l"
    "loaded qs s" by (simp_all add: q loaded_Cons)
  show ?case
  proof (cases rule: sweep_loans_Cons_cases [of l now user lid qs s])
    case skip
    then show ?thesis using Cons.IH [OF ld(4) Cons.prems(2)] by (simp add: q)
  next
    case (raise e)
    then show ?thesis by (simp add: q)
  next
    case (save s1)
    let ?s2 = "save_loan (lid, flagged now l) s1"
    have l2: "loaded qs ?s2" using ld(4) ld(1) save(4) by (rule loaded_save)
    have eq: "sweep_loans now user (q # qs) s = sweep_loans now user qs ?s2"
      using save by (simp add: q)
    show ?thesis
    proof (cases "i = lid")
      case True
      have "loans (snd (sweep_loans now user qs ?s2)) ! lid = loans ?s2 ! lid"
        using ld(1) by (rule sweep_loans_untouched)
      also have "\<dots> = flagged now l" using ld(2) save(4) by simp
      finally show ?thesis using save(1,2) ld(3) True eq by simp
    next
      case False
      have "i < length (loans ?s2)" using Cons.prems(2) save(4) by simp
      from Cons.IH [OF l2 this, of ] False save(4) eq
      show ?thesis by simp
    qed
  qed
qed

lemma sweep_loans_row_fields:
  assumes "loaded qs s" "i < length (loans s)"
  shows "loan_book (loans (snd (sweep_loans now user qs s)) ! i) = loan_book (loans s ! i)"
    "loan_user (loans (snd (sweep_loans now user qs s)) ! i) = loan_user (loans s ! i)"
    "loan_date (loans (snd (sweep_loans now user qs s)) ! i) = loan_date (loans s ! i)"
    "due_date (loans (snd (sweep_loans now user qs s)) ! i) = due_date (loans s ! i)"
  using sweep_loans_rows [OF assms, of now user] by auto

text \<open>A loan that the loop meets active and overdue is overdue afterwards.\<close>

lemma sweep_loans_flags:
  assumes "loaded qs s" "(lid, l) \<in> set qs" "loan_status l = LoanActive" "is_overdue now l"
    "fst (sweep_loans now user qs s) = LISTED"
  shows "loans (snd (sweep_loans now user qs s)) ! lid = flagged now l"
  using assms
proof (induction qs arbitrary: s)
  case Nil
  then show ?case by simp
next
  case (Cons q qs)
  obtain k m where q: "q = (k, m)" by (cases q)
  from Cons.prems(1) have ld: "k \<notin> fst ` set qs" "k < length (loans s)" "loans s ! k = m"
    "loaded qs s" by (simp_all add: q loaded_Cons)
  show ?case
  proof (cases rule: sweep_loans_Cons_cases [of m now user k qs s])
    case skip
    with Cons.prems(2-4) q have "(lid, l) \<in> set qs" by auto
    from Cons.IH [OF ld(4) this Cons.prems(3,4)] Cons.prems(5) skip
    show ?thesis by (simp add: q)
  next
    case (raise e)
    with Cons.prems(5) show ?thesis by (simp add: q)
  next
    case (save s1)
    let ?s2 = "save_loan (k, flagged now m) s1"
    have l2: "loaded qs ?s2" using ld(4) ld(1) save(4) by (rule loaded_save)
    have eq: "sweep_loans now user (q # qs) s = sweep_loans now user qs ?s2"
      using save by (simp add: q)
    show ?thesis
    proof (cases "(lid, l) \<in> set qs")
      case True
      from Cons.IH [OF l2 True Cons.prems(3,4)] Cons.prems(5) eq
      show ?thesis by simp
    next
      case False
      with Cons.prems(2) q have km: "k = lid" "m = l" by auto
      have "loans (snd (sweep_loans now user qs ?s2)) ! k = loans ?s2 ! k"
        using ld(1) by (rule sweep_loans_untouched)
      also have "\<dots> = flagged now m" using ld(2) save(4) by simp
      finally show ?thesis using km eq by simp
    qed
  qed
qed

lemma reload_Cons: "reload s' ((lid, l) # qs) = (lid, loans s' ! lid) # reload s' qs"
  by (simp add: reload_def)

lemma flagged_not_swept: "\<not> (loan_status (flagged now l) = LoanActive \<and> is_overdue now (flagged now l))"
  by simp

text \<open>Running the loop again on the reloaded instances changes nothing.\<close>

lemma sweep_loans_again:
  assumes "loaded qs s"
  shows "sweep_loans now user (reload (snd (sweep_loans now user qs s)) qs)
           (snd (sweep_loans now user qs s)) = sweep_loans now user qs s"
  using assms
proof (induction qs arbitrary: s)
  case Nil
  then show ?case by (simp add: reload_def sweep_loans.simps)
next
  case (Cons q qs)
  obtain lid l where q: "q = (lid, l)" by (cases q)
  from Cons.prems(1) have ld: "lid \<notin> fst ` set qs" "lid < length (loans s)" "loans s ! lid = l"
    "loaded qs s" by (simp_all add: q loaded_Cons)
  show ?case
  proof (cases rule: sweep_loans_Cons_cases [of l now user lid qs s])
    case skip
    let ?r = "sweep_loans now user qs s"
    have row: "loans (snd ?r) ! lid = l"
      using sweep_loans_untouched [OF ld(1), of now user s] ld(3) by simp
    have "sweep_loans now user ((lid, l) # reload (snd ?r) qs) (snd ?r) =
          sweep_loans now user (reload (snd ?r) qs) (snd ?r)"
      using skip(1) by (simp only: sweep_loans.simps if_False)
    with Cons.IH [OF ld(4)] skip(2) row show ?thesis
      by (simp add: q reload_Cons)
  next
    case (raise e)
    have "sweep_loans now user ((lid, l) # reload s qs) s = (Raised e, s)"
      using raise(1-4) by (simp add: sweep_loans.simps calculate_fine_eq)
    with raise(5) ld(3) show ?thesis by (simp add: q reload_Cons)
  next
    case (save s1)
    let ?s2 = "save_loan (lid, flagged now l) s1"
    let ?r = "sweep_loans now user qs ?s2"
    have l2: "loaded qs ?s2" using ld(4) ld(1) save(4) by (rule loaded_save)
    have eq: "sweep_loans now user (q # qs) s = ?r"
      using save by (simp add: q)
    have "loans (snd ?r) ! lid = loans ?s2 ! lid"
      using ld(1) by (rule sweep_loans_untouched)
    then have row: "loans (snd ?r) ! lid = flagged now l" using ld(2) save(4) by simp
    have "sweep_loans now user ((lid, flagged now l) # reload (snd ?r) qs) (snd ?r) =
          sweep_loans now user (reload (snd ?r) qs) (snd ?r)"
      using flagged_not_swept [of now l] by (simp only: sweep_loans.simps if_False)
    with Cons.IH [OF l2] eq row show ?thesis
      by (simp add: q reload_Cons)
  qed
qed


lemma length_filter_objects:
  "length (filter (\<lambda>(i, x). P x) (objects tbl)) = length (filter P tbl)"
proof -
  have "length (filter (\<lambda>(i, x). P x) (objects tbl)) =
        length (map snd (filter (P \<circ> snd) (objects tbl)))"
    by (simp add: comp_def case_prod_unfold)
  also have "map snd (filter (P \<circ> snd) (objects tbl)) = filter P (map snd (objects tbl))"
    by (simp add: filter_map)
  also have "map snd (objects tbl) = tbl" by (simp add: objects_def)
  finally show ?thesis .
qed

lemma fine_count_eq:
  "fine_count s user lid =
     length (filter (\<lambda>f. fine_user f = user \<and> fine_loan f = lid) (fines s))"
  by (simp add: fine_count_def fines_for_def length_filter_objects)

lemma length_filter_update_same:
  assumes "i < length xs \<Longrightarrow> P y = P (xs ! i)"
  shows "length (filter P (xs[i := y])) = length (filter P xs)"
  using assms
proof (induction xs arbitrary: i)
  case Nil
  then show ?case by simp
next
  case (Cons x xs)
  then show ?case by (cases i) auto
qed

lemma upsert_fine_count:
  assumes "upsert_fine now user lid fa why s = Inr s1"
  shows "fine_count s1 u k \<le> max 1 (fine_count s u k)"
proof -
  consider "fines_for s user lid = []"
    | fid f where "fines_for s user lid = [(fid, f)]"
    | a b rest where "fines_for s user lid = a # b # rest"
    by (cases "fines_for s user lid" rule: remdups_adj.cases) auto
  then show ?thesis
  proof cases
    case 1
    then have z: "fine_count s user lid = 0" by (simp add: fine_count_def)
    from 1 assms have "fines s1 = fines s @
        [\<lparr>fine_user = user, fine_loan = lid, amount = fa, reason = why,
          created_date = now, fine_status = FinePending\<rparr>]"
      by (auto simp: upsert_fine_def)
    then show ?thesis using z by (auto simp: fine_count_eq)
  next
    case 2
    then have "(fid, f) \<in> set (fines_for s user lid)" by simp
    then have f: "fid < length (fines s)" "fines s ! fid = f"
      by (simp_all add: fines_for_def in_objects_iff)
    from 2 assms have "fines s1 = (fines s)[fid := f\<lparr>amount := fa\<rparr>]"
      by (auto simp: upsert_fine_def)
    then have "fine_count s1 u k = fine_count s u k"
      using f by (simp add: fine_count_eq length_filter_update_same)
    then show ?thesis by simp
  next
    case 3
    with assms show ?thesis by (simp add: upsert_fine_def)
  qed
qed

lemma sweep_loans_fine_count:
  "fine_count (snd (sweep_loans now user qs s)) u k \<le> max 1 (fine_count s u k)"
proof (induction qs arbitrary: s)
  case Nil
  then show ?case by (simp add: sweep_loans.simps)
next
  case (Cons q qs)
  obtain lid l where q: "q = (lid, l)" by (cases q)
  show ?case
  proof (cases rule: sweep_loans_Cons_cases [of l now user lid qs s])
    case skip
    then show ?thesis using Cons.IH [of s] by (simp add: q)
  next
    case (raise e)
    then show ?thesis by (simp add: q)
  next
    case (save s1)
    let ?s2 = "save_loan (lid, flagged now l) s1"
    have "fine_count s1 u k \<le> max 1 (fine_count s u k)"
      using save(7) upsert_fine_count by auto
    moreover have "fine_count ?s2 u k = fine_count s1 u k" by (simp add: fine_count_eq)
    moreover have "fine_count (snd (sweep_loans now user qs ?s2)) u k \<le> max 1 (fine_count ?s2 u k)"
      by (rule Cons.IH)
    ultimately show ?thesis using save(8) by (simp add: q)
  qed
qed

subsection \<open>The queryset\<close>

lemma insort_key_map_agree:
  assumes "k (g x) = k x" "\<And>y. y \<in> set ys \<Longrightarrow> k (g y) = k y"
  shows "insort_key k (g x) (map g ys) = map g (insort_key k x ys)"
  using assms by (induction ys) auto

lemma sort_key_map_agree:
  assumes "\<And>y. y \<in> set ys \<Longrightarrow> k (g y) = k y"
  shows "sort_key k (map g ys) = map g (sort_key k ys)"
  using assms
proof (induction ys)
  case Nil
  then show ?case by simp
next
  case (Cons y ys)
  have "sort_key k (map g (y # ys)) = insort_key k (g y) (map g (sort_key k ys))"
    using Cons by simp
  also have "\<dots> = map g (insort_key k y (sort_key k ys))"
    using Cons.prems by (intro insort_key_map_agree) auto
  finally show ?case by simp
qed

lemma filter_map_agree:
  assumes "\<And>y. y \<in> set ys \<Longrightarrow> P (g y) = P y"
  shows "filter P (map g ys) = map g (filter P ys)"
  using assms by (induction ys) auto

lemma objects_reload:
  assumes "length ys = length xs"
  shows "objects ys = map (\<lambda>(i, l). (i, ys ! i)) (objects xs)"
proof (rule nth_equalityI)
  show "length (objects ys) = length (map (\<lambda>(i, l). (i, ys ! i)) (objects xs))"
    using assms by (simp add: objects_def)
next
  fix i assume "i < length (objects ys)"
  then have i: "i < length ys" "i < length xs" using assms by (simp_all add: objects_def)
  have "objects ys ! i = (i, ys ! i)" using i(1) by (simp add: objects_def nth_enumerate_eq)
  moreover have "objects xs ! i = (i, xs ! i)" using i(2) by (simp add: objects_def nth_enumerate_eq)
  moreover have "i < length (objects xs)" using i(2) by (simp add: objects_def)
  ultimately show "objects ys ! i = map (\<lambda>(i, l). (i, ys ! i)) (objects xs) ! i"
    by simp
qed

lemma my_loans_queryset_member:
  "((lid, l) \<in> set (my_loans_queryset s user)) =
     ((lid < length (loans s) \<and> loans s ! lid = l) \<and> loan_user l = user \<and>
      loan_book l < length (books s))"
  by (simp add: my_loans_queryset_def order_by_def in_objects_iff)

lemma my_loans_queryset_distinct: "distinct (map fst (my_loans_queryset s user))"
proof -
  let ?f = "filter (\<lambda>(lid, l). loan_user l = user \<and> loan_book l < length (books s))
              (objects (loans s))"
  have "distinct (map fst (objects (loans s)))" by (simp add: objects_def)
  then have d: "distinct (map fst ?f)" by (rule distinct_map_filter)
  have "distinct (map fst (sort_key (\<lambda>(lid, l). - loan_date l) ?f))"
    using d by (simp add: distinct_map)
  then show ?thesis by (simp only: my_loans_queryset_def order_by_def)
qed

lemma my_loans_queryset_loaded: "loaded (my_loans_queryset s user) s"
proof -
  have "i < length (loans s) \<and> loans s ! i = l"
    if "(i, l) \<in> set (my_loans_queryset s user)" for i l
    using that by (simp only: my_loans_queryset_member)
  then have "list_all (\<lambda>(i, l). i < length (loans s) \<and> loans s ! i = l)
               (my_loans_queryset s user)"
    unfolding list_all_iff by blast
  then show ?thesis
    using my_loans_queryset_distinct [of s user] by (simp only: loaded_def simp_thms)
qed

lemma my_loans_queryset_reload:
  assumes len: "length (loans s') = length (loans s)" and bk: "books s' = books s"
    and rows: "\<And>i. i < length (loans s) \<Longrightarrow>
       loan_user (loans s' ! i) = loan_user (loans s ! i) \<and>
       loan_book (loans s' ! i) = loan_book (loans s ! i) \<and>
       loan_date (loans s' ! i) = loan_date (loans s ! i)"
  shows "my_loans_queryset s' user = reload s' (my_loans_queryset s user)"
proof -
  let ?g = "\<lambda>(i, l). (i, loans s' ! i)"
  let ?P = "\<lambda>(lid, l). loan_user l = user \<and> loan_book l < length (books s)"
  let ?k = "\<lambda>(lid, l). - loan_date l"
  have o: "objects (loans s') = map ?g (objects (loans s))"
    using len by (rule objects_reload)
  have f: "filter ?P (map ?g (objects (loans s))) = map ?g (filter ?P (objects (loans s)))"
  proof (rule filter_map_agree)
    fix y assume y: "y \<in> set (objects (loans s))"
    obtain i l where yl: "y = (i, l)" by (cases y)
    with y have "i < length (loans s)" "loans s ! i = l" by (simp_all add: in_objects_iff)
    with rows [of i] show "?P (?g y) = ?P y" by (simp add: yl)
  qed
  have k: "sort_key ?k (map ?g (filter ?P (objects (loans s)))) =
           map ?g (sort_key ?k (filter ?P (objects (loans s))))"
  proof (rule sort_key_map_agree)
    fix y assume y: "y \<in> set (filter ?P (objects (loans s)))"
    obtain i l where yl: "y = (i, l)" by (cases y)
    with y have "i < length (loans s)" "loans s ! i = l" by (simp_all add: in_objects_iff)
    with rows [of i] show "?k (?g y) = ?k y" by (simp add: yl)
  qed
  have "my_loans_queryset s' user = sort_key ?k (filter ?P (objects (loans s')))"
    by (simp only: my_loans_queryset_def order_by_def bk)
  also have "\<dots> = sort_key ?k (filter ?P (map ?g (objects (loans s))))"
    by (simp only: o)
  also have "\<dots> = sort_key ?k (map ?g (filter ?P (objects (loans s))))"
    by (simp only: f)
  also have "\<dots> = map ?g (sort_key ?k (filter ?P (objects (loans s))))"
    by (rule k)
  also have "\<dots> = reload s' (my_loans_queryset s user)"
    by (simp only: reload_def my_loans_queryset_def order_by_def)
  finally show ?thesis .
qed

section \<open>The overdue sweep\<close>

lemma my_loans_again:
  "my_loans now user (snd (my_loans now user s)) = my_loans now user s"
proof -
  let ?qs = "my_loans_queryset s user"
  let ?s' = "snd (sweep_loans now user ?qs s)"
  have ld: "loaded ?qs s" by (rule my_loans_queryset_loaded)
  have fr: "books ?s' = books s" "length (loans ?s') = length (loans s)"
    using sweep_loans_frame [of now user ?qs s] by simp_all
  have "my_loans_queryset ?s' user = reload ?s' ?qs"
    using fr(2) fr(1)
  proof (rule my_loans_queryset_reload)
    fix i assume "i < length (loans s)"
    with ld show "loan_user (loans ?s' ! i) = loan_user (loans s ! i) \<and>
       loan_book (loans ?s' ! i) = loan_book (loans s ! i) \<and>
       loan_date (loans ?s' ! i) = loan_date (loans s ! i)"
      by (simp add: sweep_loans_row_fields)
  qed
  then have "my_loans now user ?s' = sweep_loans now user (reload ?s' ?qs) ?s'"
    by (simp add: my_loans_def)
  also have "\<dots> = sweep_loans now user ?qs s"
    using ld by (rule sweep_loans_again)
  finally show ?thesis by (simp add: my_loans_def)
qed

text \<open>
  C6. Running the overdue sweep of \<open>my_loans\<close> a second time at the same instant gives
  the outcome and the store of the first run, so every Fine keeps its amount; and the
  sweep never adds a second Fine row for a (borrower, loan) pair: after one run and after
  two, a pair has at most one row, or as many as it had before.
\<close>

theorem my_loans_idempotent:
  "my_loans now user (snd (my_loans now user s)) = my_loans now user s \<and>
   fines (snd (my_loans now user (snd (my_loans now user s)))) = fines (snd (my_loans now user s)) \<and>
   fine_count (snd (my_loans now user s)) u k \<le> max 1 (fine_count s u k) \<and>
   fine_count (snd (my_loans now user (snd (my_loans now user s)))) u k
     \<le> max 1 (fine_count s u k)"
  using sweep_loans_fine_count [of now user "my_loans_queryset s user" s u k]
  by (simp add: my_loans_again) (simp add: my_loans_def)

text \<open>The theorem on the overdue loan of \<open>late_store\<close>, swept twice at day 20.\<close>

theorem my_loans_idempotent_witness:
  "my_loans (timedelta_days 20) 1 (snd (my_loans (timedelta_days 20) 1 late_store)) =
     my_loans (timedelta_days 20) 1 late_store \<and>
   map amount (fines (snd (my_loans (timedelta_days 20) 1 late_store))) = [600] \<and>
   fine_count late_store 1 0 = 0 \<and>
   fine_count (snd (my_loans (timedelta_days 20) 1
                      (snd (my_loans (timedelta_days 20) 1 late_store)))) 1 0 = 1"
proof -
  have a: "map amount (fines (snd (my_loans (timedelta_days 20) 1 late_store))) = [600]"
    "fine_count late_store 1 0 = 0"
    "fine_count (snd (my_loans (timedelta_days 20) 1 late_store)) 1 0 = 1"
    by (simp_all add: my_loans_def late_store_def upsert_fine_def late_return_reason_def
        fine_count_def sweep_loans.simps time_defs table_defs query_defs loan_defs)
  from my_loans_idempotent [of "timedelta_days 20" 1 late_store 1 0] a
  show ?thesis by simp
qed

text \<open>
  C9. A loan of the user that the sweep of \<open>my_loans\<close> finds active and overdue has the
  status \<open>overdue\<close> afterwards, and \<open>return_book\<close>, which looks the loan up with
  \<open>status = 'active'\<close>, then answers not found for every caller at every later time and
  leaves the store, with the book's \<open>available_copies\<close>, as it is. The same holds in
  every store \<open>t\<close> in which the loan has the status \<open>overdue\<close>.
\<close>

theorem overdue_loan_cannot_be_returned:
  assumes "lid < length (loans s)"
    and "loan_user (loans s ! lid) = user"
    and "loan_book (loans s ! lid) < length (books s)"
    and "loan_status (loans s ! lid) = LoanActive"
    and "is_overdue now (loans s ! lid)"
    and "fst (my_loans now user s) = LISTED"
  shows "loan_status (loans (snd (my_loans now user s)) ! lid) = LoanOverdue \<and>
         return_book now' user' lid (snd (my_loans now user s)) =
           (Raised Http404, snd (my_loans now user s)) \<and>
         (loan_status (loans t ! lid) = LoanOverdue \<longrightarrow>
            return_book now' user' lid t = (Raised Http404, t))"
proof -
  let ?qs = "my_loans_queryset s user"
  have m: "(lid, loans s ! lid) \<in> set ?qs"
    using assms(1-3) by (simp add: my_loans_queryset_member)
  have "loans (snd (sweep_loans now user ?qs s)) ! lid = flagged now (loans s ! lid)"
    using my_loans_queryset_loaded m assms(4,5) assms(6) [unfolded my_loans_def]
    by (rule sweep_loans_flags)
  then have st: "loan_status (loans (snd (my_loans now user s)) ! lid) = LoanOverdue"
    by (simp add: my_loans_def)
  then show ?thesis by (simp add: return_book_def)
qed

theorem overdue_loan_cannot_be_returned_witness:
  "loan_status (loans late_store ! 0) = LoanActive \<and>
   is_overdue (timedelta_days 20) (loans late_store ! 0) \<and>
   fst (my_loans (timedelta_days 20) 1 late_store) = LISTED \<and>
   loan_status (loans (snd (my_loans (timedelta_days 20) 1 late_store)) ! 0) = LoanOverdue \<and>
   return_book (timedelta_days 21) 1 0 (snd (my_loans (timedelta_days 20) 1 late_store)) =
     (Raised Http404, snd (my_loans (timedelta_days 20) 1 late_store)) \<and>
   available_copies (books (snd (my_loans (timedelta_days 20) 1 late_store)) ! 0) = 0"
proof -
  have h: "0 < length (loans late_store)" "loan_user (loans late_store ! 0) = 1"
    "loan_book (loans late_store ! 0) < length (books late_store)"
    "loan_status (loans late_store ! 0) = LoanActive"
    "is_overdue (timedelta_days 20) (loans late_store ! 0)"
    by (simp_all add: late_store_def is_overdue_def time_defs)
  have l: "fst (my_loans (timedelta_days 20) 1 late_store) = LISTED"
    "available_copies (books (snd (my_loans (timedelta_days 20) 1 late_store)) ! 0) = 0"
    by (simp_all add: my_loans_def late_store_def upsert_fine_def late_return_reason_def
        sweep_loans.simps time_defs table_defs query_defs loan_defs)
  from overdue_loan_cannot_be_returned [OF h l(1), of "timedelta_days 21" 1] h l
  show ?thesis by simp
qed

text \<open>
  C3. The specification asks that every sweep recomputes the Fine of an open loan to the
  days overdue as of now. The loan of \<open>late_store\<close> is due at day 14. The sweep at day 20
  creates a Fine of 6.00 and sets the loan's status to \<open>overdue\<close>; the sweep at day 25
  only looks at loans whose status is \<open>active\<close>, skips the loan, and the Fine stays at
  6.00 although the loan is still out and eleven days overdue (11.00). The branch of the
  view that updates an existing Fine is not reached again for this loan.
\<close>

theorem sweep_does_not_recompute:
  "map amount (fines (snd (my_loans (timedelta_days 20) 1 late_store))) = [600] \<and>
   fst (my_loans (timedelta_days 25) 1 (snd (my_loans (timedelta_days 20) 1 late_store))) = LISTED \<and>
   map amount (fines (snd (my_loans (timedelta_days 25) 1
                        (snd (my_loans (timedelta_days 20) 1 late_store))))) = [600] \<and>
   map loan_status (loans (snd (my_loans (timedelta_days 25) 1
                        (snd (my_loans (timedelta_days 20) 1 late_store))))) = [LoanOverdue] \<and>
   days_overdue (timedelta_days 25)
     (loans (snd (my_loans (timedelta_days 25) 1
                        (snd (my_loans (timedelta_days 20) 1 late_store)))) ! 0) * 100 = 1100"
  by (simp add: my_loans_def late_store_def upsert_fine_def late_return_reason_def
      sweep_loans.simps time_defs table_defs query_defs loan_defs)

section \<open>Copies on the shelf and loans\<close>

lemma copies_match_iff:
  "copies_match counted s =
     (\<forall>bid < length (books s). available_copies (books s ! bid) = total_copies (books s ! bid) -
        int (length (filter (\<lambda>l. loan_book l = bid \<and> counted (loan_status l)) (loans s))))"
  (is "_ = ?R")
proof -
  let ?Q = "\<lambda>bid b. available_copies b = total_copies b -
        int (length (filter (\<lambda>l. loan_book l = bid \<and> counted (loan_status l)) (loans s)))"
  have a: "copies_match counted s = (\<forall>p \<in> set (objects (books s)). ?Q (fst p) (snd p))"
    by (simp only: copies_match_def list_all_iff case_prod_unfold)
  have "(\<forall>p \<in> set (objects (books s)). ?Q (fst p) (snd p)) = ?R"
  proof
    assume l: "\<forall>p \<in> set (objects (books s)). ?Q (fst p) (snd p)"
    show ?R
    proof (intro allI impI)
      fix bid assume "bid < length (books s)"
      then have "(bid, books s ! bid) \<in> set (objects (books s))"
        by (simp only: in_objects_iff simp_thms)
      with l have "?Q (fst (bid, books s ! bid)) (snd (bid, books s ! bid))" by (rule bspec)
      then show "?Q bid (books s ! bid)" by (simp only: fst_conv snd_conv)
    qed
  next
    assume r: ?R
    show "\<forall>p \<in> set (objects (books s)). ?Q (fst p) (snd p)"
    proof
      fix p assume p: "p \<in> set (objects (books s))"
      obtain bid b where pb: "p = (bid, b)" by (cases p)
      from p have "bid < length (books s)" "books s ! bid = b"
        by (simp_all only: pb in_objects_iff)
      with r have "?Q bid b" by blast
      then show "?Q (fst p) (snd p)" by (simp only: pb fst_conv snd_conv)
    qed
  qed
  with a show ?thesis by (simp only:)
qed


lemma count_by_key:
  "length (filter (\<lambda>l. loan_book l = bid \<and> counted (loan_status l)) xs) =
   length (filter (\<lambda>p. fst p = bid \<and> snd p)
             (map (\<lambda>l. (loan_book l, counted (loan_status l))) xs))"
  by (induction xs) simp_all

lemma copies_match_cong:
  assumes "books s' = books s"
    and "map (\<lambda>l. (loan_book l, counted (loan_status l))) (loans s') =
         map (\<lambda>l. (loan_book l, counted (loan_status l))) (loans s)"
  shows "copies_match counted s' = copies_match counted s"
  unfolding copies_match_iff count_by_key assms ..

lemma length_filter_update:
  "i < length xs \<Longrightarrow>
     length (filter P (xs[i := y])) + (if P (xs ! i) then 1 else 0) =
     length (filter P xs) + (if P y then 1 else 0)"
proof (induction xs arbitrary: i)
  case Nil
  then show ?case by simp
next
  case (Cons x xs)
  show ?case
  proof (cases i)
    case 0
    then show ?thesis by simp
  next
    case (Suc j)
    with Cons.prems have "j < length xs" by simp
    from Cons.IH [OF this] Suc show ?thesis by simp
  qed
qed

text \<open>The overdue sweep keeps the book and the counted flag of every row.\<close>

lemma my_loans_copies_match:
  assumes "counted LoanOverdue = counted LoanActive"
  shows "copies_match counted (snd (my_loans now user s)) = copies_match counted s"
proof -
  let ?qs = "my_loans_queryset s user"
  let ?s' = "snd (sweep_loans now user ?qs s)"
  let ?key = "\<lambda>l. (loan_book l, counted (loan_status l))"
  have ld: "loaded ?qs s" by (rule my_loans_queryset_loaded)
  have fr: "books ?s' = books s" "length (loans ?s') = length (loans s)"
    using sweep_loans_frame [of now user ?qs s] by simp_all
  have "map ?key (loans ?s') = map ?key (loans s)"
  proof (rule nth_equalityI)
    show "length (map ?key (loans ?s')) = length (map ?key (loans s))" using fr(2) by simp
  next
    fix i assume "i < length (map ?key (loans ?s'))"
    then have i: "i < length (loans s)" using fr(2) by simp
    from sweep_loans_rows [OF ld i, of now user] assms
    have "?key (loans ?s' ! i) = ?key (loans s ! i)" by auto
    then show "map ?key (loans ?s') ! i = map ?key (loans s) ! i" using i fr(2) by simp
  qed
  with fr(1) have "copies_match counted ?s' = copies_match counted s"
    by (rule copies_match_cong)
  then show ?thesis by (simp only: my_loans_def)
qed

lemma sweep_reservations_frame:
  "books (sweep_reservations now qs s) = books s \<and>
   loans (sweep_reservations now qs s) = loans s"
proof (induction now qs s rule: sweep_reservations.induct)
  case (1 now s)
  then show ?case by simp
next
  case (2 now rid r rest s)
  then show ?case by simp
qed

lemma my_reservations_copies_match:
  "copies_match counted (snd (my_reservations now user s)) = copies_match counted s"
  by (rule copies_match_cong) (simp_all add: my_reservations_def sweep_reservations_frame)

lemma cancel_reservation_copies_match:
  "copies_match counted (snd (cancel_reservation user rid s)) = copies_match counted s"
  by (rule copies_match_cong) (simp_all add: cancel_reservation_def)

lemma renew_copies_match:
  assumes "lid < length (loans s)"
  shows "copies_match counted (snd (snd (renew now s (lid, loans s ! lid)))) =
         copies_match counted s"
proof (rule copies_match_cong)
  show "books (snd (snd (renew now s (lid, loans s ! lid)))) = books s"
    by (simp add: renew_def Let_def split: sum.splits prod.splits)
next
  let ?key = "\<lambda>l. (loan_book l, counted (loan_status l))"
  let ?l2 = "(loans s ! lid)\<lparr>due_date := now + timedelta_days 14,
                renewal_count := renewal_count (loans s ! lid) + 1\<rparr>"
  have "(map ?key (loans s))[lid := ?key ?l2] = map ?key (loans s)"
    using assms by (simp add: list_update_same_conv)
  then have "map ?key ((loans s)[lid := ?l2]) = map ?key (loans s)"
    by (simp only: map_update)
  then show "map ?key (loans (snd (snd (renew now s (lid, loans s ! lid))))) =
        map ?key (loans s)"
    by (simp add: renew_def Let_def split: sum.splits prod.splits)
qed

lemma return_book_refused:
  assumes "\<not> (lid < length (loans s) \<and> loan_user (loans s ! lid) = user
             \<and> loan_status (loans s ! lid) = LoanActive)"
  shows "return_book now user lid s = (Raised Http404, s)"
  using assms by (simp add: return_book_def)

lemma return_book_effect:
  assumes "lid < length (loans s)" "loan_user (loans s ! lid) = user"
    "loan_status (loans s ! lid) = LoanActive"
  shows "loans (snd (return_book now user lid s)) =
           (loans s)[lid := (loans s ! lid)\<lparr>return_date := Some now, loan_status := LoanReturned\<rparr>]"
    and "books (snd (return_book now user lid s)) =
           (if loan_book (loans s ! lid) < length (books s)
            then (books s)[loan_book (loans s ! lid) :=
                   (books s ! loan_book (loans s ! lid))
                     \<lparr>available_copies :=
                        available_copies (books s ! loan_book (loans s ! lid)) + 1\<rparr>]
            else books s)"
  using assms
  by (simp_all add: return_book_def is_overdue_def get_book_def Let_def
      split: option.splits prod.splits)

lemma borrow_book_refused:
  assumes "\<not> (book_id < length (books s) \<and> 0 < available_copies (books s ! book_id)
             \<and> \<not> has_active_loan s book_id user \<and> \<not> has_pending_fines s user
             \<and> int (length (active_loans_of s user)) < 5)"
  shows "snd (borrow_book now user book_id s) = s"
  using assms by (auto simp add: borrow_book_def get_book_def)

lemma borrow_book_effect:
  assumes "book_id < length (books s)" "0 < available_copies (books s ! book_id)"
    "\<not> has_active_loan s book_id user" "\<not> has_pending_fines s user"
    "int (length (active_loans_of s user)) < 5"
  shows "loans (snd (borrow_book now user book_id s)) =
           loans s @ [\<lparr>loan_book = book_id, loan_user = user, loan_date = now,
                        due_date = now + timedelta_days 14, return_date = None,
                        loan_status = LoanActive, renewal_count = 0, fine_amount = 0\<rparr>]"
    and "books (snd (borrow_book now user book_id s)) =
           (books s)[book_id := (books s ! book_id)
                      \<lparr>available_copies := available_copies (books s ! book_id) - 1\<rparr>]"
  using assms
  by (simp_all add: borrow_book_def get_book_def Let_def
      split: list.splits option.splits prod.splits)


lemma return_book_copies_match:
  assumes ca: "counted LoanActive" and cr: "\<not> counted LoanReturned"
    and inv: "copies_match counted s"
  shows "copies_match counted (snd (return_book now user lid s))"
proof (cases "lid < length (loans s) \<and> loan_user (loans s ! lid) = user
             \<and> loan_status (loans s ! lid) = LoanActive")
  case False
  then show ?thesis using inv by (simp add: return_book_refused)
next
  case True
  let ?s' = "snd (return_book now user lid s)"
  let ?l = "loans s ! lid"
  let ?l1 = "?l\<lparr>return_date := Some now, loan_status := LoanReturned\<rparr>"
  let ?bk = "loan_book ?l"
  let ?P = "\<lambda>bid l. loan_book l = bid \<and> counted (loan_status l)"
  from True have g: "lid < length (loans s)" "loan_user ?l = user" "loan_status ?l = LoanActive"
    by simp_all
  note eff = return_book_effect [OF g, of now]
  have cnt: "length (filter (?P bid) (loans ?s')) + (if ?bk = bid then 1 else 0) =
             length (filter (?P bid) (loans s))" for bid
    using length_filter_update [OF g(1), of "?P bid" ?l1] g(3) ca cr
    by (simp add: eff(1))
  have h: "available_copies (books s ! bid) = total_copies (books s ! bid) -
             int (length (filter (?P bid) (loans s)))" if "bid < length (books s)" for bid
    using inv that by (simp add: copies_match_iff)
  show ?thesis
    unfolding copies_match_iff
  proof (intro allI impI)
    fix bid assume "bid < length (books ?s')"
    then have b: "bid < length (books s)" by (simp add: eff(2) split: if_splits)
    show "available_copies (books ?s' ! bid) = total_copies (books ?s' ! bid) -
             int (length (filter (?P bid) (loans ?s')))"
    proof (cases "?bk = bid")
      case True
      with b have "books ?s' ! bid =
          (books s ! bid)\<lparr>available_copies := available_copies (books s ! bid) + 1\<rparr>"
        by (simp add: eff(2))
      with h [OF b] cnt [of bid] True show ?thesis by simp
    next
      case False
      with b have "books ?s' ! bid = books s ! bid" by (simp add: eff(2))
      with h [OF b] cnt [of bid] False show ?thesis by simp
    qed
  qed
qed

lemma borrow_book_copies_match:
  assumes ca: "counted LoanActive" and inv: "copies_match counted s"
  shows "copies_match counted (snd (borrow_book now user book_id s))"
proof (cases "book_id < length (books s) \<and> 0 < available_copies (books s ! book_id)
             \<and> \<not> has_active_loan s book_id user \<and> \<not> has_pending_fines s user
             \<and> int (length (active_loans_of s user)) < 5")
  case False
  then have "snd (borrow_book now user book_id s) = s" by (rule borrow_book_refused)
  with inv show ?thesis by simp
next
  case True
  let ?s' = "snd (borrow_book now user book_id s)"
  let ?P = "\<lambda>bid l. loan_book l = bid \<and> counted (loan_status l)"
  from True have g: "book_id < length (books s)" "0 < available_copies (books s ! book_id)"
    "\<not> has_active_loan s book_id user" "\<not> has_pending_fines s user"
    "int (length (active_loans_of s user)) < 5" by simp_all
  note eff = borrow_book_effect [OF g, of now]
  have cnt: "length (filter (?P bid) (loans ?s')) =
             length (filter (?P bid) (loans s)) + (if book_id = bid then 1 else 0)" for bid
    using ca by (simp add: eff(1))
  have h: "available_copies (books s ! bid) = total_copies (books s ! bid) -
             int (length (filter (?P bid) (loans s)))" if "bid < length (books s)" for bid
    using inv that by (simp add: copies_match_iff)
  show ?thesis
    unfolding copies_match_iff
  proof (intro allI impI)
    fix bid assume "bid < length (books ?s')"
    then have b: "bid < length (books s)" by (simp add: eff(2))
    show "available_copies (books ?s' ! bid) = total_copies (books ?s' ! bid) -
             int (length (filter (?P bid) (loans ?s')))"
    proof (cases "book_id = bid")
      case True
      with b eff(2) have "books ?s' ! bid =
          (books s ! bid)\<lparr>available_copies := available_copies (books s ! bid) - 1\<rparr>"
        by simp
      with h [OF b] cnt [of bid] True show ?thesis by simp
    next
      case False
      with b eff(2) have "books ?s' ! bid = books s ! bid" by simp
      with h [OF b] cnt [of bid] False show ?thesis by simp
    qed
  qed
qed

section \<open>The copy count as an invariant\<close>

text \<open>
  C1, as stated, fails for the overdue sweep. In \<open>late_store\<close> the one copy is lent out:
  \<open>available_copies = 0 = 1 - 1\<close> active loan. The sweep of \<open>my_loans\<close> at day 20 sets
  the loan's status to \<open>overdue\<close> and leaves \<open>available_copies\<close> at 0, while the book now
  has no loan with status \<open>active\<close>: \<open>0 \<noteq> 1 - 0\<close>.
\<close>

theorem overdue_sweep_counterexample:
  "spec_copies_invariant late_store \<and>
   fst (my_loans (timedelta_days 20) 1 late_store) = LISTED \<and>
   \<not> spec_copies_invariant (snd (my_loans (timedelta_days 20) 1 late_store))"
  by (simp add: spec_copies_invariant_def copies_match_def my_loans_def late_store_def
      upsert_fine_def late_return_reason_def sweep_loans.simps
      time_defs table_defs query_defs loan_defs)

text \<open>
  C1, amended. With the loans that are out counted, those with status \<open>active\<close> or
  \<open>overdue\<close>, the equation \<open>available_copies = total_copies - count\<close> for every book is
  preserved by every operation: borrow, return, renew (of a loan loaded from the store),
  cancel, the overdue sweep and the expiry sweep, whether the operation succeeds, refuses
  or raises. With the \<open>active\<close> loans only, as the claim counts them, the equation is
  preserved by borrow, return, renew, cancel and the expiry sweep.
\<close>

theorem copies_invariant_preserved:
  "(out_copies_invariant s \<longrightarrow>
      out_copies_invariant (snd (borrow_book now user book_id s)) \<and>
      out_copies_invariant (snd (return_book now user loan_id s)) \<and>
      (loan_id < length (loans s) \<longrightarrow>
         out_copies_invariant (snd (snd (renew now s (loan_id, loans s ! loan_id))))) \<and>
      out_copies_invariant (snd (cancel_reservation user reservation_id s)) \<and>
      out_copies_invariant (snd (my_loans now user s)) \<and>
      out_copies_invariant (snd (my_reservations now user s))) \<and>
   (spec_copies_invariant s \<longrightarrow>
      spec_copies_invariant (snd (borrow_book now user book_id s)) \<and>
      spec_copies_invariant (snd (return_book now user loan_id s)) \<and>
      (loan_id < length (loans s) \<longrightarrow>
         spec_copies_invariant (snd (snd (renew now s (loan_id, loans s ! loan_id))))) \<and>
      spec_copies_invariant (snd (cancel_reservation user reservation_id s)) \<and>
      spec_copies_invariant (snd (my_reservations now user s)))"
proof (intro conjI impI)
  assume i: "out_copies_invariant s"
  show "out_copies_invariant (snd (borrow_book now user book_id s))"
    using i unfolding out_copies_invariant_def by (intro borrow_book_copies_match) simp_all
  show "out_copies_invariant (snd (return_book now user loan_id s))"
    using i unfolding out_copies_invariant_def by (intro return_book_copies_match) simp_all
  show "out_copies_invariant (snd (cancel_reservation user reservation_id s))"
    using i by (simp only: out_copies_invariant_def cancel_reservation_copies_match)
  show "out_copies_invariant (snd (my_loans now user s))"
    using i by (simp add: out_copies_invariant_def my_loans_copies_match)
  show "out_copies_invariant (snd (my_reservations now user s))"
    using i by (simp only: out_copies_invariant_def my_reservations_copies_match)
  show "out_copies_invariant (snd (snd (renew now s (loan_id, loans s ! loan_id))))"
    if "loan_id < length (loans s)"
    using i that by (simp only: out_copies_invariant_def renew_copies_match)
next
  assume i: "spec_copies_invariant s"
  show "spec_copies_invariant (snd (borrow_book now user book_id s))"
    using i unfolding spec_copies_invariant_def by (intro borrow_book_copies_match) simp_all
  show "spec_copies_invariant (snd (return_book now user loan_id s))"
    using i unfolding spec_copies_invariant_def by (intro return_book_copies_match) simp_all
  show "spec_copies_invariant (snd (cancel_reservation user reservation_id s))"
    using i by (simp only: spec_copies_invariant_def cancel_reservation_copies_match)
  show "spec_copies_invariant (snd (my_reservations now user s))"
    using i by (simp only: spec_copies_invariant_def my_reservations_copies_match)
  show "spec_copies_invariant (snd (snd (renew now s (loan_id, loans s ! loan_id))))"
    if "loan_id < length (loans s)"
    using i that by (simp only: spec_copies_invariant_def renew_copies_match)
qed

text \<open>
  The theorem on \<open>late_store\<close> at day 20: the return gives the copy back, the sweep flags
  the loan, and the equation holds after each.
\<close>

theorem copies_invariant_preserved_witness:
  "out_copies_invariant late_store \<and> spec_copies_invariant late_store \<and>
   0 < length (loans late_store) \<and>
   fst (return_book (timedelta_days 20) 1 0 late_store) = RETURNED 0 \<and>
   out_copies_invariant (snd (return_book (timedelta_days 20) 1 0 late_store)) \<and>
   spec_copies_invariant (snd (return_book (timedelta_days 20) 1 0 late_store)) \<and>
   out_copies_invariant (snd (my_loans (timedelta_days 20) 1 late_store)) \<and>
   out_copies_invariant
     (snd (snd (renew (timedelta_days 20) late_store (0, loans late_store ! 0)))) \<and>
   spec_copies_invariant
     (snd (snd (renew (timedelta_days 20) late_store (0, loans late_store ! 0))))"
proof -
  have h: "out_copies_invariant late_store" "spec_copies_invariant late_store"
    "0 < length (loans late_store)"
    by (simp_all add: out_copies_invariant_def spec_copies_invariant_def copies_match_def
        late_store_def table_defs)
  have r: "fst (return_book (timedelta_days 20) 1 0 late_store) = RETURNED 0"
    by (simp add: return_book_def late_store_def time_defs table_defs query_defs loan_defs)
  from copies_invariant_preserved [of late_store "timedelta_days 20" 1 0 0 0] h r
  show ?thesis by simp
qed

end
